theory Spec2Isabelle
  imports Main "HOL-Library.FSet" "HOL-Library.Word"
begin

unbundle bit_operations_syntax

section \<open>Python integers as text\<close>

text \<open>
  \<open>str_nat\<close> is the decimal text Python's \<open>str\<close> and f-strings give a non-negative
  integer; \<open>digits_val\<close> reads such a text back.
\<close>

definition digit_char :: "nat \<Rightarrow> char" where
  "digit_char d = char_of (48 + d)"

fun str_nat :: "nat \<Rightarrow> string" where
  "str_nat n = (if n < 10 then [digit_char n] else str_nat (n div 10) @ [digit_char (n mod 10)])"

declare str_nat.simps [simp del]

definition is_digit :: "char \<Rightarrow> bool" where
  "is_digit c = (48 \<le> (of_char c :: nat) \<and> (of_char c :: nat) \<le> 57)"

definition digits_val :: "string \<Rightarrow> nat" where
  "digits_val s = foldl (\<lambda>acc c. 10 * acc + ((of_char c :: nat) - 48)) 0 s"

lemma of_char_digit_char: "d < 10 \<Longrightarrow> (of_char (digit_char d) :: nat) = 48 + d"
  by (simp add: digit_char_def)

lemma is_digit_digit_char: "d < 10 \<Longrightarrow> is_digit (digit_char d)"
  by (simp add: is_digit_def of_char_digit_char)

lemma digits_val_snoc: "digits_val (s @ [c]) = 10 * digits_val s + ((of_char c :: nat) - 48)"
  by (simp add: digits_val_def)

lemma digits_val_str_nat: "digits_val (str_nat n) = n"
proof (induction n rule: str_nat.induct)
  case (1 n)
  show ?case
  proof (cases "n < 10")
    case True
    then show ?thesis
      by (subst str_nat.simps) (simp add: digits_val_def of_char_digit_char)
  next
    case False
    with 1 have "digits_val (str_nat (n div 10)) = n div 10" by simp
    with False show ?thesis
      by (subst str_nat.simps) (simp add: digits_val_snoc of_char_digit_char)
  qed
qed

lemma str_nat_inj: "str_nat m = str_nat n \<Longrightarrow> m = n"
  by (metis digits_val_str_nat)

lemma str_nat_all_digits: "list_all is_digit (str_nat n)"
proof (induction n rule: str_nat.induct)
  case (1 n)
  show ?case
  proof (cases "n < 10")
    case True
    then show ?thesis by (subst str_nat.simps) (simp add: is_digit_digit_char)
  next
    case False
    with 1 have "list_all is_digit (str_nat (n div 10))" by simp
    with False show ?thesis by (subst str_nat.simps) (simp add: is_digit_digit_char)
  qed
qed

lemma str_nat_nonempty: "str_nat n \<noteq> []"
  by (subst str_nat.simps) simp

section \<open>NameRegistry (NameTracker/naming.py)\<close>

text \<open>
  \<open>Naming\<close> holds two Python sets of strings. \<open>get_name\<close> is the loop
  \<open>i = 0; while True: candidate = f"{base}{i}"; ...; i += 1\<close>; \<open>get_name_from\<close> is that
  loop entered with counter \<open>i\<close>. The sets are finite, which is what makes the loop end.
\<close>

record naming =
  used_names :: "string fset"
  generated_names :: "string fset"

function get_name_from :: "naming \<Rightarrow> string \<Rightarrow> nat \<Rightarrow> string \<times> naming" where
  "get_name_from st base i =
     (let candidate = base @ str_nat i in
      if candidate |\<notin>| used_names st \<and> candidate |\<notin>| generated_names st
      then (candidate,
            st\<lparr>generated_names := finsert candidate (generated_names st),
               used_names := finsert candidate (used_names st)\<rparr>)
      else get_name_from st base (i + 1))"
  by pat_completeness auto

lemma finite_taken_indices:
  "finite {j. base @ str_nat j \<in> fset F}"
proof -
  have "inj (\<lambda>j. base @ str_nat j)"
    by (auto simp: inj_on_def dest: str_nat_inj)
  then have "finite ((\<lambda>j. base @ str_nat j) -` fset F)"
    by (intro finite_vimageI) simp_all
  then show ?thesis by (simp add: vimage_def)
qed

termination get_name_from
proof (relation "measure (\<lambda>(st, base, i).
         card {j. i \<le> j \<and> base @ str_nat j \<in> fset (used_names st |\<union>| generated_names st)})")
  show "wf (measure (\<lambda>(st, base, i).
         card {j. i \<le> j \<and> base @ str_nat j \<in> fset (used_names st |\<union>| generated_names st)}))"
    by simp
next
  fix st :: naming and base :: string and i :: nat and x :: string
  assume x: "x = base @ str_nat i"
    and taken: "\<not> (x |\<notin>| used_names st \<and> x |\<notin>| generated_names st)"
  let ?F = "used_names st |\<union>| generated_names st"
  let ?A = "\<lambda>k. {j. k \<le> j \<and> base @ str_nat j \<in> fset ?F}"
  have fin: "finite (?A i)"
    using finite_taken_indices [of base ?F] by (rule rev_finite_subset) auto
  have "i \<in> ?A i" using x taken by auto
  moreover have "i \<notin> ?A (i + 1)" by simp
  moreover have "?A (i + 1) \<subseteq> ?A i" by auto
  ultimately have "?A (i + 1) \<subset> ?A i" by blast
  with fin have "card (?A (i + 1)) < card (?A i)" by (rule psubset_card_mono)
  then show "((st, base, i + 1), (st, base, i)) \<in> measure (\<lambda>(st, base, i).
         card {j. i \<le> j \<and> base @ str_nat j \<in> fset (used_names st |\<union>| generated_names st)})"
    by simp
qed

declare get_name_from.simps [simp del]

definition get_name :: "naming \<Rightarrow> string \<Rightarrow> string \<times> naming" where
  "get_name st base = get_name_from st base 0"

text \<open>
  One run of the obfuscator drives the registry through a sequence of calls:
  \<open>get_name(base)\<close> from the passes, and \<open>used_names.add(n)\<close> from the visitor
  methods of \<open>analyze\<close>. \<open>run_naming\<close> returns the names handed out, in order.
\<close>

datatype naming_op = GetName string | UsedAdd string

fun run_naming :: "naming \<Rightarrow> naming_op list \<Rightarrow> string list \<times> naming" where
  "run_naming st [] = ([], st)"
| "run_naming st (GetName base # ops) =
     (let (c, st') = get_name st base; (cs, st'') = run_naming st' ops in (c # cs, st''))"
| "run_naming st (UsedAdd n # ops) =
     run_naming (st\<lparr>used_names := finsert n (used_names st)\<rparr>) ops"

lemma get_name_from_spec:
  "\<exists>j\<ge>i. fst (get_name_from st base i) = base @ str_nat j
     \<and> base @ str_nat j |\<notin>| used_names st \<and> base @ str_nat j |\<notin>| generated_names st
     \<and> (\<forall>k. i \<le> k \<and> k < j \<longrightarrow>
            base @ str_nat k |\<in>| used_names st |\<union>| generated_names st)
     \<and> snd (get_name_from st base i) =
         st\<lparr>generated_names := finsert (base @ str_nat j) (generated_names st),
            used_names := finsert (base @ str_nat j) (used_names st)\<rparr>"
proof (induction st base i rule: get_name_from.induct)
  case (1 st base i)
  show ?case
  proof (cases "base @ str_nat i |\<notin>| used_names st \<and> base @ str_nat i |\<notin>| generated_names st")
    case True
    then show ?thesis
      by (intro exI [of _ i]) (auto simp: get_name_from.simps [of st base i] Let_def)
  next
    case False
    then have eq: "get_name_from st base i = get_name_from st base (i + 1)"
      by (subst get_name_from.simps) (auto simp: Let_def)
    from 1 [OF refl] False obtain j where j: "i + 1 \<le> j"
      "fst (get_name_from st base (i + 1)) = base @ str_nat j"
      "base @ str_nat j |\<notin>| used_names st" "base @ str_nat j |\<notin>| generated_names st"
      "\<forall>k. i + 1 \<le> k \<and> k < j \<longrightarrow>
            base @ str_nat k |\<in>| used_names st |\<union>| generated_names st"
      "snd (get_name_from st base (i + 1)) =
         st\<lparr>generated_names := finsert (base @ str_nat j) (generated_names st),
            used_names := finsert (base @ str_nat j) (used_names st)\<rparr>"
      by blast
    have "\<forall>k. i \<le> k \<and> k < j \<longrightarrow>
            base @ str_nat k |\<in>| used_names st |\<union>| generated_names st"
    proof (intro allI impI)
      fix k assume k: "i \<le> k \<and> k < j"
      show "base @ str_nat k |\<in>| used_names st |\<union>| generated_names st"
      proof (cases "k = i")
        case True
        with False show ?thesis by auto
      next
        case False
        with k j(5) show ?thesis by simp
      qed
    qed
    with j eq show ?thesis
      by (intro exI [of _ j]) simp
  qed
qed

lemma get_name_fresh: "fst (get_name st base) |\<notin>| used_names st"
  using get_name_from_spec [of 0 st base] by (auto simp: get_name_def)

lemma get_name_used:
  "used_names (snd (get_name st base)) = finsert (fst (get_name st base)) (used_names st)"
  using get_name_from_spec [of 0 st base] by (auto simp: get_name_def)

lemma run_naming_used_mono:
  "used_names st |\<subseteq>| used_names (snd (run_naming st ops))"
proof (induction ops arbitrary: st)
  case Nil
  show ?case by simp
next
  case (Cons op ops)
  show ?case
  proof (cases op)
    case (GetName base)
    have "used_names st |\<subseteq>| used_names (snd (get_name st base))"
      by (auto simp: get_name_used)
    also have "\<dots> |\<subseteq>| used_names (snd (run_naming (snd (get_name st base)) ops))"
      by (rule Cons.IH)
    finally show ?thesis using GetName by (simp add: split_beta Let_def)
  next
    case (UsedAdd n)
    have "used_names st |\<subseteq>| used_names (st\<lparr>used_names := finsert n (used_names st)\<rparr>)"
      by auto
    also have "\<dots> |\<subseteq>| used_names (snd (run_naming (st\<lparr>used_names := finsert n (used_names st)\<rparr>) ops))"
      by (rule Cons.IH)
    finally show ?thesis using UsedAdd by simp
  qed
qed

lemma run_naming_fresh_distinct:
  "distinct (fst (run_naming st ops)) \<and> (\<forall>c \<in> set (fst (run_naming st ops)). c |\<notin>| used_names st)"
proof (induction ops arbitrary: st)
  case Nil
  show ?case by simp
next
  case (Cons op ops)
  show ?case
  proof (cases op)
    case (GetName base)
    let ?c = "fst (get_name st base)" and ?st = "snd (get_name st base)"
    have IH: "distinct (fst (run_naming ?st ops))"
      "\<forall>c \<in> set (fst (run_naming ?st ops)). c |\<notin>| used_names ?st"
      using Cons.IH [of ?st] by simp_all
    have "?c |\<in>| used_names ?st" by (simp add: get_name_used)
    with IH(2) have "?c \<notin> set (fst (run_naming ?st ops))" by blast
    moreover have "\<forall>c \<in> set (fst (run_naming ?st ops)). c |\<notin>| used_names st"
      using IH(2) by (auto simp: get_name_used)
    ultimately show ?thesis
      using GetName IH(1) get_name_fresh [of st base] by (simp add: split_beta Let_def)
  next
    case (UsedAdd n)
    then show ?thesis using Cons.IH [of "st\<lparr>used_names := finsert n (used_names st)\<rparr>"]
      by auto
  qed
qed

text \<open>
  C8. \<open>get_name(base)\<close> returns \<open>base + str(i)\<close> for the smallest \<open>i \<ge> 0\<close> whose
  candidate is in neither set, adds the result to both sets, and the names returned by the
  \<open>get_name\<close> calls of one run (any bases, interleaved with any additions to the used
  set) are pairwise distinct.
\<close>

theorem get_name_smallest_fresh_unique:
  "(\<exists>i. fst (get_name st base) = base @ str_nat i
        \<and> base @ str_nat i |\<notin>| used_names st
        \<and> base @ str_nat i |\<notin>| generated_names st
        \<and> (\<forall>k<i. base @ str_nat k |\<in>| used_names st |\<union>| generated_names st))
   \<and> used_names (snd (get_name st base)) = finsert (fst (get_name st base)) (used_names st)
   \<and> generated_names (snd (get_name st base)) =
         finsert (fst (get_name st base)) (generated_names st)
   \<and> distinct (fst (run_naming st ops))"
proof -
  obtain j where j: "fst (get_name st base) = base @ str_nat j"
      "base @ str_nat j |\<notin>| used_names st" "base @ str_nat j |\<notin>| generated_names st"
      "\<forall>k. 0 \<le> k \<and> k < j \<longrightarrow>
            base @ str_nat k |\<in>| used_names st |\<union>| generated_names st"
      "snd (get_name st base) =
         st\<lparr>generated_names := finsert (base @ str_nat j) (generated_names st),
            used_names := finsert (base @ str_nat j) (used_names st)\<rparr>"
    using get_name_from_spec [of 0 st base] unfolding get_name_def by blast
  have "\<exists>i. fst (get_name st base) = base @ str_nat i
        \<and> base @ str_nat i |\<notin>| used_names st
        \<and> base @ str_nat i |\<notin>| generated_names st
        \<and> (\<forall>k<i. base @ str_nat k |\<in>| used_names st |\<union>| generated_names st)"
    using j(1-4) by (intro exI [of _ j]) simp
  moreover have "generated_names (snd (get_name st base)) =
         finsert (fst (get_name st base)) (generated_names st)"
    using j(1,5) by simp
  ultimately show ?thesis
    using get_name_used [of st base] run_naming_fresh_distinct [of st ops] by blast
qed

definition naming_example :: naming where
  "naming_example = \<lparr>used_names = {|''i0'', ''i1'', ''x''|}, generated_names = {||}\<rparr>"

lemma get_name_example: "get_name naming_example ''i'' =
   (''i2'', \<lparr>used_names = {|''i2'', ''i0'', ''i1'', ''x''|}, generated_names = {|''i2''|}\<rparr>)"
  by code_simp

theorem get_name_smallest_fresh_unique_witness:
  "fst (get_name naming_example ''i'') = ''i2''
   \<and> used_names (snd (get_name naming_example ''i'')) = {|''i2'', ''i0'', ''i1'', ''x''|}
   \<and> distinct (fst (run_naming naming_example
         [GetName ''i'', UsedAdd ''i3'', GetName ''i'', GetName ''x'', GetName ''i'']))"
proof -
  note t = get_name_smallest_fresh_unique [of naming_example "''i''"
      "[GetName ''i'', UsedAdd ''i3'', GetName ''i'', GetName ''x'', GetName ''i'']"]
  have e: "fst (get_name naming_example ''i'') = ''i2''"
    by (simp add: get_name_example)
  have u: "used_names naming_example = {|''i0'', ''i1'', ''x''|}"
    by (simp add: naming_example_def)
  from t e u show ?thesis by simp
qed

section \<open>Syntax trees\<close>

datatype pyconst = CInt int | CBool bool | CStr string | CNone

datatype expr_context = Load | Store | Del

datatype operator = Add | Sub | Mult | FloorDiv | Mod | BitAnd | BitOr | BitXor | LShift | RShift

datatype unaryop = USub | Not

datatype cmpop = Eq | NotEq | Lt | LtE | Gt | GtE

datatype arguments = Arguments (posonlyargs: "string list") (args: "string list")
  (vararg: "string option") (kwonlyargs: "string list") (kwarg: "string option")

datatype expr =
    Constant pyconst
  | Name string expr_context
  | BinOp expr operator expr
  | UnaryOp unaryop expr
  | Compare expr cmpop expr
  | Call expr "expr list"
  | Lambda arguments expr

datatype stmt =
    Assign "expr list" expr
  | AugAssign expr operator expr
  | For expr expr "stmt list" "stmt list"
  | While expr "stmt list" "stmt list"
  | If expr "stmt list" "stmt list"
  | FunctionDef string arguments "stmt list"
  | ClassDef string "stmt list"
  | Return "expr option"
  | Expr expr
  | Global "string list"
  | Pass

datatype exn = TypeError | ValueError | ZeroDivisionError | NameError string | Unsupported

section \<open>Python values as integers and as text\<close>

fun isinstance_int :: "pyconst \<Rightarrow> bool" where
  "isinstance_int (CInt n) = True"
| "isinstance_int (CBool b) = True"
| "isinstance_int (CStr s) = False"
| "isinstance_int CNone = False"

fun int_value :: "pyconst \<Rightarrow> int option" where
  "int_value (CInt n) = Some n"
| "int_value (CBool b) = Some (if b then 1 else 0)"
| "int_value (CStr s) = None"
| "int_value CNone = None"

text \<open>
  CPython refuses to convert between \<open>int\<close> and decimal text when more than
  \<open>sys.int_info.default_max_str_digits = 4300\<close> digits are involved: both \<open>str(v)\<close> and
  \<open>int(s)\<close> raise \<open>ValueError\<close> then.
\<close>

definition max_str_digits :: nat where
  "max_str_digits = 4300"

definition decimal_digits :: "int \<Rightarrow> nat" where
  "decimal_digits v = length (str_nat (nat \<bar>v\<bar>))"

definition str_int :: "int \<Rightarrow> exn + string" where
  "str_int v =
     (if decimal_digits v > max_str_digits then Inl ValueError
      else Inr (if v < 0 then CHR ''-'' # str_nat (nat \<bar>v\<bar>) else str_nat (nat \<bar>v\<bar>)))"

fun py_str :: "pyconst \<Rightarrow> exn + string" where
  "py_str (CInt n) = str_int n"
| "py_str (CBool b) = Inr (if b then ''True'' else ''False'')"
| "py_str (CStr s) = Inr s"
| "py_str CNone = Inr ''None''"

text \<open>
  \<open>int(s)\<close> in base 10, on text whose characters are below 256: whitespace is stripped
  at both ends (the characters Python's \<open>str.isspace\<close> accepts there: 9 to 13, 28 to 32,
  133 and 160), one sign \<open>+\<close> or \<open>-\<close> may lead, and the rest is groups of ASCII digits
  separated by single underscores. Anything else, or more than 4300 digits, raises
  \<open>ValueError\<close>.
\<close>

definition is_space :: "char \<Rightarrow> bool" where
  "is_space c =
     (let k = (of_char c :: nat)
      in (9 \<le> k \<and> k \<le> 13) \<or> (28 \<le> k \<and> k \<le> 32) \<or> k = 133 \<or> k = 160)"

definition strip :: "string \<Rightarrow> string" where
  "strip s = rev (dropWhile is_space (rev (dropWhile is_space s)))"

fun digit_groups :: "string \<Rightarrow> bool" where
  "digit_groups [] = False"
| "digit_groups [c] = is_digit c"
| "digit_groups (c # d # cs) =
     (is_digit c \<and> (if d = CHR ''_'' then digit_groups cs else digit_groups (d # cs)))"

definition py_int :: "string \<Rightarrow> exn + int" where
  "py_int s =
     (let t = strip s;
          negative = (t \<noteq> [] \<and> hd t = CHR ''-'');
          body = (if t \<noteq> [] \<and> (hd t = CHR ''-'' \<or> hd t = CHR ''+'') then tl t else t);
          ds = filter (\<lambda>c. c \<noteq> CHR ''_'') body
      in if \<not> digit_groups body then Inl ValueError
         else if length ds > max_str_digits then Inl ValueError
         else Inr (if negative then - int (digits_val ds) else int (digits_val ds)))"

section \<open>NumberObscurer\<close>

definition rotl3 :: "int \<Rightarrow> int" where
  "rotl3 x = (push_bit 3 x OR drop_bit (16 - 3) x) AND 65535"

subsection \<open>SimpleFeistelNumberStrategy\<close>

record simple_feistel =
  sf_rounds :: nat
  sf_key16 :: int
  sf_decoder_name :: string

definition SimpleFeistel_init :: "naming \<Rightarrow> simple_feistel \<times> naming" where
  "SimpleFeistel_init naming =
     (let (name, naming') = get_name naming ''decode_num''
      in (\<lparr>sf_rounds = 4, sf_key16 = 45771, sf_decoder_name = name\<rparr>, naming'))"

fun sf_encode_rounds :: "int \<Rightarrow> nat \<Rightarrow> int \<times> int \<Rightarrow> int \<times> int" where
  "sf_encode_rounds key 0 (L, R) = (L, R)"
| "sf_encode_rounds key (Suc n) (L, R) =
     (let x = R XOR key;
          F = rotl3 x
      in sf_encode_rounds key n (R, (L XOR F) AND 65535))"

definition SimpleFeistel_obfuscate :: "simple_feistel \<Rightarrow> pyconst \<Rightarrow> exn + expr" where
  "SimpleFeistel_obfuscate self val =
     (case int_value val of
        None \<Rightarrow> Inl TypeError
      | Some v \<Rightarrow>
          if \<not> (0 \<le> v \<and> v < push_bit 32 1) then Inr (Constant val)
          else
            let L = drop_bit 16 v;
                R = v AND 65535;
                (L, R) = sf_encode_rounds (sf_key16 self) (sf_rounds self) (L, R);
                encoded = push_bit 16 L OR R
            in Inr (Call (Name (sf_decoder_name self) Load) [Constant (CInt encoded)]))"

fun sf_decode_rounds :: "int \<Rightarrow> nat \<Rightarrow> int \<times> int \<Rightarrow> int \<times> int" where
  "sf_decode_rounds key 0 (L, R) = (L, R)"
| "sf_decode_rounds key (Suc n) (L, R) =
     (let tmp = L XOR key;
          F = rotl3 tmp;
          prevL = R XOR F;
          prevR = L
      in sf_decode_rounds key n (prevL, prevR))"

definition SimpleFeistel_decoder :: "simple_feistel \<Rightarrow> pyconst \<Rightarrow> exn + pyconst" where
  "SimpleFeistel_decoder self arg =
     (case int_value arg of
        None \<Rightarrow> Inl TypeError
      | Some x \<Rightarrow>
          let L = drop_bit 16 x;
              R = x AND 65535;
              (L, R) = sf_decode_rounds (sf_key16 self) (sf_rounds self) (L, R);
              v = push_bit 16 L OR R
          in Inr (CInt (v AND 4294967295)))"

subsection \<open>FeistelNumberStrategy\<close>

record feistel =
  f_rounds :: nat
  f_salt_mul :: int
  f_salt_xor :: int
  f_decoder_name :: string

definition Feistel_init :: "naming \<Rightarrow> nat \<Rightarrow> 16 word \<Rightarrow> 16 word \<Rightarrow> feistel \<times> naming" where
  "Feistel_init naming rounds bits1 bits2 =
     (let (name, naming') = get_name naming ''decode_num''
      in (\<lparr>f_rounds = rounds, f_salt_mul = uint bits1 OR 1, f_salt_xor = uint bits2 AND 65535,
            f_decoder_name = name\<rparr>, naming'))"

definition unpack_bits :: "int \<Rightarrow> int \<times> int" where
  "unpack_bits v =
     fold (\<lambda>i (L, R). (L OR push_bit i (drop_bit (2 * i) v AND 1),
                       R OR push_bit i (drop_bit (2 * i + 1) v AND 1))) [0..<16] (0, 0)"

definition interleave_bits :: "int \<Rightarrow> int \<Rightarrow> int" where
  "interleave_bits L R =
     fold (\<lambda>i enc. (enc OR push_bit (2 * i) (drop_bit i L AND 1))
                      OR push_bit (2 * i + 1) (drop_bit i R AND 1)) [0..<16] 0"

fun f_encode_rounds :: "feistel \<Rightarrow> nat \<Rightarrow> int \<times> int \<Rightarrow> int \<times> int" where
  "f_encode_rounds self 0 (L, R) = (L, R)"
| "f_encode_rounds self (Suc n) (L, R) =
     (let y = (R * f_salt_mul self) AND 65535;
          z = y XOR f_salt_xor self;
          F = rotl3 z
      in f_encode_rounds self n (R, (L XOR F) AND 65535))"

definition Feistel_obfuscate :: "feistel \<Rightarrow> pyconst \<Rightarrow> exn + expr" where
  "Feistel_obfuscate self val =
     (case int_value val of
        None \<Rightarrow> Inl TypeError
      | Some v \<Rightarrow>
          if \<not> (0 \<le> v \<and> v < push_bit 32 1) then Inr (Constant val)
          else
            let (L, R) = unpack_bits v;
                (L, R) = f_encode_rounds self (f_rounds self) (L, R);
                encoded = interleave_bits L R;
                encoded = encoded AND 4294967295
            in Inr (Call (Name (f_decoder_name self) Load) [Constant (CInt encoded)]))"

fun f_decode_rounds :: "feistel \<Rightarrow> nat \<Rightarrow> int \<times> int \<Rightarrow> int \<times> int" where
  "f_decode_rounds self 0 (L, R) = (L, R)"
| "f_decode_rounds self (Suc n) (L, R) =
     (let F_input = L;
          y = (F_input * f_salt_mul self) AND 65535;
          z = y XOR f_salt_xor self;
          F = rotl3 z
      in f_decode_rounds self n ((R XOR F) AND 65535, F_input))"

definition Feistel_decoder :: "feistel \<Rightarrow> pyconst \<Rightarrow> exn + pyconst" where
  "Feistel_decoder self arg =
     (case int_value arg of
        None \<Rightarrow> Inl TypeError
      | Some x \<Rightarrow>
          let (L, R) = unpack_bits x;
              (L, R) = f_decode_rounds self (f_rounds self) (L, R);
              original = interleave_bits L R
          in Inr (CInt (original AND 4294967295)))"

subsection \<open>TemplateNumberStrategy\<close>

definition Template_obfuscate :: "pyconst \<Rightarrow> exn + expr" where
  "Template_obfuscate val = Inr (Constant val)"

subsection \<open>XorStringNumberStrategy\<close>

definition xor_char :: "char \<Rightarrow> char \<Rightarrow> char" where
  "xor_char c k = char_of ((of_char c :: nat) XOR (of_char k :: nat))"

definition XorString_init :: "naming \<Rightarrow> string \<times> naming" where
  "XorString_init naming = get_name naming ''decode_num''"

definition XorString_obfuscate :: "string \<Rightarrow> (nat \<Rightarrow> char) \<Rightarrow> pyconst \<Rightarrow> exn + expr" where
  "XorString_obfuscate decoder_name getrandbits val =
     (case py_str val of
        Inl e \<Rightarrow> Inl e
      | Inr s \<Rightarrow>
          let n = length s;
              key_chars = map getrandbits [0..<n];
              xor_chars = map (\<lambda>i. xor_char (s ! i) (key_chars ! i)) [0..<n];
              encoded = xor_chars @ key_chars
          in Inr (Call (Name decoder_name Load) [Constant (CStr encoded)]))"

definition XorString_decoder :: "pyconst \<Rightarrow> exn + pyconst" where
  "XorString_decoder arg =
     (case arg of
        CStr encoded \<Rightarrow>
          let n = length encoded div 2;
              xor_str = take n encoded;
              key = drop n encoded;
              chars = map (\<lambda>i. xor_char (xor_str ! i) (key ! i)) [0..<n]
          in (case py_int chars of Inl e \<Rightarrow> Inl e | Inr v \<Rightarrow> Inr (CInt v))
      | _ \<Rightarrow> Inl TypeError)"

subsection \<open>NumberObscurerInjector\<close>

definition visit_Constant :: "(pyconst \<Rightarrow> exn + expr) \<Rightarrow> pyconst \<Rightarrow> exn + expr" where
  "visit_Constant obfuscate val =
     (if isinstance_int val then obfuscate val else Inr (Constant val))"

fun eval_replacement :: "string \<Rightarrow> (pyconst \<Rightarrow> exn + pyconst) \<Rightarrow> expr \<Rightarrow> exn + pyconst" where
  "eval_replacement dn decoder (Constant c) = Inr c"
| "eval_replacement dn decoder (Call (Name f Load) [Constant c]) =
     (if f = dn then decoder c else Inl (NameError f))"
| "eval_replacement dn decoder e = Inl Unsupported"

definition sf0 :: simple_feistel where
  "sf0 = \<lparr>sf_rounds = 4, sf_key16 = 45771, sf_decoder_name = ''decode_num0''\<rparr>"

subsection \<open>Bit-level facts about the Feistel encoders\<close>

lemma and_65535: "(x::int) AND 65535 = take_bit 16 x"
proof -
  have "(65535::int) = mask 16" by (simp add: mask_eq_exp_minus_1)
  then show ?thesis by (simp add: take_bit_eq_mask)
qed

lemma and_4294967295: "(x::int) AND 4294967295 = take_bit 32 x"
proof -
  have "(4294967295::int) = mask 32" by (simp add: mask_eq_exp_minus_1)
  then show ?thesis by (simp add: take_bit_eq_mask)
qed

lemma rotl3_u16: "take_bit 16 (rotl3 x) = rotl3 x"
  by (simp add: rotl3_def and_65535)

lemma xor_cancel_u16:
  fixes L F :: int
  assumes "take_bit 16 L = L" "take_bit 16 F = F"
  shows "take_bit 16 (L XOR F) XOR F = L"
proof -
  have "take_bit 16 (L XOR F) = L XOR F"
    using assms by (simp add: take_bit_xor)
  then show ?thesis by (simp add: xor.assoc)
qed

lemma pack_unpack_hi:
  fixes L R :: int
  assumes "take_bit 16 R = R"
  shows "drop_bit 16 (push_bit 16 L OR R) = L"
proof -
  have "drop_bit 16 R = 0"
    using assms by (metis drop_bit_take_bit diff_self_eq_0 take_bit_0 drop_bit_of_0 order_refl)
  then show ?thesis by (simp add: drop_bit_or drop_bit_push_bit)
qed

lemma pack_unpack_lo:
  fixes L R :: int
  assumes "take_bit 16 R = R"
  shows "take_bit 16 (push_bit 16 L OR R) = R"
  using assms by (simp add: take_bit_or take_bit_push_bit)

lemma split_pack:
  fixes v :: int
  shows "push_bit 16 (drop_bit 16 v) OR take_bit 16 v = v"
  by (rule bit_eqI) (auto simp: bit_or_iff bit_push_bit_iff bit_drop_bit_eq bit_take_bit_iff)

lemma drop_bit_16_u16:
  fixes v :: int
  assumes "0 \<le> v" "v < 2 ^ 32"
  shows "take_bit 16 (drop_bit 16 v) = drop_bit 16 v"
proof -
  have "take_bit 32 v = v" using assms by (simp add: take_bit_int_eq_self)
  then have "drop_bit 16 v = drop_bit 16 (take_bit 32 v)" by simp
  also have "\<dots> = take_bit 16 (drop_bit 16 v)" by (simp add: drop_bit_take_bit)
  finally show ?thesis by simp
qed

lemma sf_decode_rounds_Suc_last:
  "sf_decode_rounds key (Suc n) (L, R) =
     (case sf_decode_rounds key n (L, R) of (L', R') \<Rightarrow> (R' XOR rotl3 (L' XOR key), L'))"
proof (induction n arbitrary: L R)
  case 0
  show ?case by simp
next
  case (Suc n)
  have "sf_decode_rounds key (Suc (Suc n)) (L, R) =
          sf_decode_rounds key (Suc n) (R XOR rotl3 (L XOR key), L)"
    by (simp add: Let_def)
  also have "\<dots> = (case sf_decode_rounds key n (R XOR rotl3 (L XOR key), L) of
                      (L', R') \<Rightarrow> (R' XOR rotl3 (L' XOR key), L'))"
    by (rule Suc.IH)
  also have "sf_decode_rounds key n (R XOR rotl3 (L XOR key), L) = sf_decode_rounds key (Suc n) (L, R)"
    by (simp add: Let_def)
  finally show ?case .
qed

lemma sf_rounds_inverse:
  assumes "take_bit 16 L = L" "take_bit 16 R = R"
  shows "sf_decode_rounds key n (sf_encode_rounds key n (L, R)) = (L, R)"
  using assms
proof (induction n arbitrary: L R)
  case 0
  show ?case by simp
next
  case (Suc n)
  let ?R' = "take_bit 16 (L XOR rotl3 (R XOR key))"
  have enc: "sf_encode_rounds key (Suc n) (L, R) = sf_encode_rounds key n (R, ?R')"
    by (simp add: Let_def and_65535)
  have IH: "sf_decode_rounds key n (sf_encode_rounds key n (R, ?R')) = (R, ?R')"
    by (rule Suc.IH) (simp_all add: Suc.prems)
  have "sf_decode_rounds key (Suc n) (sf_encode_rounds key n (R, ?R')) =
          (?R' XOR rotl3 (R XOR key), R)"
    using IH sf_decode_rounds_Suc_last [of key n "fst (sf_encode_rounds key n (R, ?R'))"
        "snd (sf_encode_rounds key n (R, ?R'))"]
    by simp
  also have "?R' XOR rotl3 (R XOR key) = L"
    by (rule xor_cancel_u16) (simp_all add: Suc.prems rotl3_u16)
  finally show ?case by (simp only: enc)
qed

lemma sf_encode_rounds_u16:
  assumes "take_bit 16 L = L" "take_bit 16 R = R"
  shows "take_bit 16 (fst (sf_encode_rounds key n (L, R))) = fst (sf_encode_rounds key n (L, R))
       \<and> take_bit 16 (snd (sf_encode_rounds key n (L, R))) = snd (sf_encode_rounds key n (L, R))"
  using assms
proof (induction n arbitrary: L R)
  case 0
  then show ?case by simp
next
  case (Suc n)
  have "sf_encode_rounds key (Suc n) (L, R) =
          sf_encode_rounds key n (R, take_bit 16 (L XOR rotl3 (R XOR key)))"
    by (simp add: Let_def and_65535)
  moreover have "take_bit 16 (take_bit 16 (L XOR rotl3 (R XOR key))) =
      take_bit 16 (L XOR rotl3 (R XOR key))" by simp
  ultimately show ?case using Suc.IH [OF Suc.prems(2)] by simp
qed

lemma SimpleFeistel_decoder_int:
  "SimpleFeistel_decoder self (CInt x) =
     Inr (CInt (take_bit 32
       (push_bit 16 (fst (sf_decode_rounds (sf_key16 self) (sf_rounds self) (drop_bit 16 x, take_bit 16 x)))
        OR snd (sf_decode_rounds (sf_key16 self) (sf_rounds self) (drop_bit 16 x, take_bit 16 x)))))"
  by (simp add: SimpleFeistel_decoder_def and_65535 and_4294967295 split_beta Let_def)

lemma SimpleFeistel_roundtrip:
  assumes "0 \<le> v" "v < 2 ^ 32"
  shows "\<exists>p. SimpleFeistel_obfuscate self (CInt v) =
               Inr (Call (Name (sf_decoder_name self) Load) [Constant p])
           \<and> SimpleFeistel_decoder self p = Inr (CInt v)"
proof -
  let ?L = "drop_bit 16 v" and ?R = "take_bit 16 v"
  obtain L' R' where enc: "sf_encode_rounds (sf_key16 self) (sf_rounds self) (?L, ?R) = (L', R')"
    by (cases "sf_encode_rounds (sf_key16 self) (sf_rounds self) (?L, ?R)")
  have uL: "take_bit 16 ?L = ?L" using assms by (rule drop_bit_16_u16)
  have inv: "sf_decode_rounds (sf_key16 self) (sf_rounds self) (L', R') = (?L, ?R)"
    using sf_rounds_inverse [of ?L ?R "sf_key16 self" "sf_rounds self"] uL enc by simp
  have uR': "take_bit 16 R' = R'"
    using sf_encode_rounds_u16 [of ?L ?R "sf_key16 self" "sf_rounds self"] uL enc by simp
  have obf: "SimpleFeistel_obfuscate self (CInt v) =
      Inr (Call (Name (sf_decoder_name self) Load) [Constant (CInt (push_bit 16 L' OR R'))])"
    using assms enc by (simp add: SimpleFeistel_obfuscate_def and_65535)
  have hi: "drop_bit 16 (push_bit 16 L' OR R') = L'"
    using uR' by (rule pack_unpack_hi)
  have lo: "take_bit 16 (push_bit 16 L' OR R') = R'"
    using uR' by (rule pack_unpack_lo)
  have v32: "take_bit 32 v = v"
    using assms by (simp add: take_bit_int_eq_self)
  have "SimpleFeistel_decoder self (CInt (push_bit 16 L' OR R')) =
          Inr (CInt (take_bit 32 (push_bit 16 ?L OR ?R)))"
    unfolding SimpleFeistel_decoder_int hi lo inv by simp
  also have "\<dots> = Inr (CInt v)"
    unfolding split_pack v32 ..
  finally show ?thesis using obf by blast
qed

lemma bit_and_1_int: "bit ((x::int) AND 1) m \<longleftrightarrow> m = 0 \<and> bit x 0"
  by (auto simp: bit_and_iff bit_1_iff)

lemma unpack_bits_fold_bit:
  fixes v :: int
  defines "f \<equiv> (\<lambda>i (L, R). (L OR push_bit i (drop_bit (2 * i) v AND 1),
                       R OR push_bit i (drop_bit (2 * i + 1) v AND 1)))"
  shows "(bit (fst (fold f [0..<k] (0, 0))) n \<longleftrightarrow> n < k \<and> bit v (2 * n))
       \<and> (bit (snd (fold f [0..<k] (0, 0))) n \<longleftrightarrow> n < k \<and> bit v (2 * n + 1))"
proof (induction k)
  case 0
  show ?case by simp
next
  case (Suc k)
  obtain L R where LR: "fold f [0..<k] (0, 0) = (L, R)"
    by (cases "fold f [0..<k] (0, 0)")
  have "fold f [0..<Suc k] (0, 0) = f k (L, R)"
    by (simp add: LR)
  also have "\<dots> =
      (L OR push_bit k (drop_bit (2 * k) v AND 1), R OR push_bit k (drop_bit (2 * k + 1) v AND 1))"
    by (simp only: f_def split)
  finally have step: "fold f [0..<Suc k] (0, 0) =
      (L OR push_bit k (drop_bit (2 * k) v AND 1), R OR push_bit k (drop_bit (2 * k + 1) v AND 1))" .
  have L: "bit L n \<longleftrightarrow> n < k \<and> bit v (2 * n)" and R: "bit R n \<longleftrightarrow> n < k \<and> bit v (2 * n + 1)"
    using Suc.IH LR by simp_all
  have a: "bit (push_bit k (drop_bit (2 * k) v AND 1)) n \<longleftrightarrow> n = k \<and> bit v (2 * k)"
    unfolding bit_push_bit_iff bit_and_1_int bit_drop_bit_eq by auto
  have b: "bit (push_bit k (drop_bit (2 * k + 1) v AND 1)) n \<longleftrightarrow> n = k \<and> bit v (2 * k + 1)"
    unfolding bit_push_bit_iff bit_and_1_int bit_drop_bit_eq by auto
  show ?case
    unfolding step using L R a b by (auto simp: bit_or_iff less_Suc_eq)
qed

lemma bit_unpack_bits:
  "(bit (fst (unpack_bits v)) n \<longleftrightarrow> n < 16 \<and> bit v (2 * n))
 \<and> (bit (snd (unpack_bits v)) n \<longleftrightarrow> n < 16 \<and> bit v (2 * n + 1))"
  unfolding unpack_bits_def by (rule unpack_bits_fold_bit)

lemma interleave_fold_bit:
  fixes L R :: int
  defines "g \<equiv> (\<lambda>i enc. (enc OR push_bit (2 * i) (drop_bit i L AND 1))
                      OR push_bit (2 * i + 1) (drop_bit i R AND 1))"
  shows "bit (fold g [0..<k] 0) m \<longleftrightarrow>
           m < 2 * k \<and> (if even m then bit L (m div 2) else bit R (m div 2))"
proof (induction k arbitrary: m)
  case 0
  show ?case by simp
next
  case (Suc k)
  let ?e = "fold g [0..<k] 0"
  have "fold g [0..<Suc k] 0 = g k ?e"
    by simp
  also have "\<dots> =
      (?e OR push_bit (2 * k) (drop_bit k L AND 1)) OR push_bit (2 * k + 1) (drop_bit k R AND 1)"
    by (simp only: g_def)
  finally have step: "fold g [0..<Suc k] 0 =
      (?e OR push_bit (2 * k) (drop_bit k L AND 1)) OR push_bit (2 * k + 1) (drop_bit k R AND 1)" .
  have a: "bit (push_bit (2 * k) (drop_bit k L AND 1)) m \<longleftrightarrow> m = 2 * k \<and> bit L k"
    unfolding bit_push_bit_iff bit_and_1_int bit_drop_bit_eq by auto
  have b: "bit (push_bit (2 * k + 1) (drop_bit k R AND 1)) m \<longleftrightarrow> m = 2 * k + 1 \<and> bit R k"
    unfolding bit_push_bit_iff bit_and_1_int bit_drop_bit_eq by auto
  have c: "m < 2 * Suc k \<longleftrightarrow> m < 2 * k \<or> m = 2 * k \<or> m = 2 * k + 1"
    by arith
  show ?case
    unfolding step bit_or_iff Suc.IH a b c by auto
qed

lemma bit_interleave_bits:
  "bit (interleave_bits L R) m \<longleftrightarrow>
     m < 32 \<and> (if even m then bit L (m div 2) else bit R (m div 2))"
  unfolding interleave_bits_def using interleave_fold_bit [of L R 16 m] by simp

lemma interleave_unpack: "interleave_bits (fst (unpack_bits v)) (snd (unpack_bits v)) = take_bit 32 v"
proof (rule bit_eqI)
  fix m
  show "bit (interleave_bits (fst (unpack_bits v)) (snd (unpack_bits v))) m = bit (take_bit 32 v) m"
  proof (cases "even m")
    case True
    then obtain n where "m = 2 * n" by (auto elim: evenE)
    then show ?thesis
      by (auto simp: bit_interleave_bits bit_unpack_bits bit_take_bit_iff)
  next
    case False
    then obtain n where "m = 2 * n + 1" by (auto elim: oddE)
    then show ?thesis
      by (auto simp: bit_interleave_bits bit_unpack_bits bit_take_bit_iff)
  qed
qed

lemma unpack_interleave:
  "unpack_bits (interleave_bits L R) = (take_bit 16 L, take_bit 16 R)"
proof -
  have "fst (unpack_bits (interleave_bits L R)) = take_bit 16 L"
    by (rule bit_eqI) (auto simp: bit_unpack_bits bit_interleave_bits bit_take_bit_iff)
  moreover have "snd (unpack_bits (interleave_bits L R)) = take_bit 16 R"
    by (rule bit_eqI) (auto simp: bit_unpack_bits bit_interleave_bits bit_take_bit_iff)
  ultimately show ?thesis by (simp add: prod_eq_iff)
qed

lemma unpack_bits_u16:
  "take_bit 16 (fst (unpack_bits v)) = fst (unpack_bits v)
 \<and> take_bit 16 (snd (unpack_bits v)) = snd (unpack_bits v)"
proof
  show "take_bit 16 (fst (unpack_bits v)) = fst (unpack_bits v)"
    by (rule bit_eqI) (auto simp: bit_unpack_bits bit_take_bit_iff)
  show "take_bit 16 (snd (unpack_bits v)) = snd (unpack_bits v)"
    by (rule bit_eqI) (auto simp: bit_unpack_bits bit_take_bit_iff)
qed

lemma take_bit_32_interleave: "take_bit 32 (interleave_bits L R) = interleave_bits L R"
  by (rule bit_eqI) (auto simp: bit_interleave_bits bit_take_bit_iff)

definition f_F :: "feistel \<Rightarrow> int \<Rightarrow> int" where
  "f_F self x = rotl3 (((x * f_salt_mul self) AND 65535) XOR f_salt_xor self)"

lemma f_encode_rounds_Suc:
  "f_encode_rounds self (Suc n) (L, R) = f_encode_rounds self n (R, take_bit 16 (L XOR f_F self R))"
  by (simp add: Let_def and_65535 f_F_def)

lemma f_decode_rounds_Suc:
  "f_decode_rounds self (Suc n) (L, R) = f_decode_rounds self n (take_bit 16 (R XOR f_F self L), L)"
  by (simp add: Let_def and_65535 f_F_def)

lemma f_decode_rounds_Suc_last:
  "f_decode_rounds self (Suc n) (L, R) =
     (case f_decode_rounds self n (L, R) of (L', R') \<Rightarrow> (take_bit 16 (R' XOR f_F self L'), L'))"
proof (induction n arbitrary: L R)
  case 0
  show ?case by (simp add: Let_def and_65535 f_F_def)
next
  case (Suc n)
  have "f_decode_rounds self (Suc (Suc n)) (L, R) =
          f_decode_rounds self (Suc n) (take_bit 16 (R XOR f_F self L), L)"
    by (rule f_decode_rounds_Suc)
  also have "\<dots> = (case f_decode_rounds self n (take_bit 16 (R XOR f_F self L), L) of
                      (L', R') \<Rightarrow> (take_bit 16 (R' XOR f_F self L'), L'))"
    by (rule Suc.IH)
  also have "f_decode_rounds self n (take_bit 16 (R XOR f_F self L), L) =
               f_decode_rounds self (Suc n) (L, R)"
    by (rule f_decode_rounds_Suc [symmetric])
  finally show ?case .
qed

lemma f_F_u16: "take_bit 16 (f_F self x) = f_F self x"
  by (simp add: f_F_def rotl3_u16)

lemma f_rounds_inverse:
  assumes "take_bit 16 L = L" "take_bit 16 R = R"
  shows "f_decode_rounds self n (f_encode_rounds self n (L, R)) = (L, R)"
  using assms
proof (induction n arbitrary: L R)
  case 0
  show ?case by simp
next
  case (Suc n)
  let ?R' = "take_bit 16 (L XOR f_F self R)"
  have enc: "f_encode_rounds self (Suc n) (L, R) = f_encode_rounds self n (R, ?R')"
    by (rule f_encode_rounds_Suc)
  have IH: "f_decode_rounds self n (f_encode_rounds self n (R, ?R')) = (R, ?R')"
    by (rule Suc.IH) (simp_all add: Suc.prems)
  have "f_decode_rounds self (Suc n) (f_encode_rounds self n (R, ?R')) =
          (take_bit 16 (?R' XOR f_F self R), R)"
    using IH f_decode_rounds_Suc_last [of self n "fst (f_encode_rounds self n (R, ?R'))"
        "snd (f_encode_rounds self n (R, ?R'))"]
    by simp
  also have "?R' XOR f_F self R = L"
    by (rule xor_cancel_u16) (simp_all add: Suc.prems f_F_u16)
  finally show ?case by (simp only: enc Suc.prems)
qed

lemma f_encode_rounds_u16:
  assumes "take_bit 16 L = L" "take_bit 16 R = R"
  shows "take_bit 16 (fst (f_encode_rounds self n (L, R))) = fst (f_encode_rounds self n (L, R))
       \<and> take_bit 16 (snd (f_encode_rounds self n (L, R))) = snd (f_encode_rounds self n (L, R))"
  using assms
proof (induction n arbitrary: L R)
  case 0
  then show ?case by simp
next
  case (Suc n)
  have "take_bit 16 (take_bit 16 (L XOR f_F self R)) = take_bit 16 (L XOR f_F self R)" by simp
  then show ?case
    unfolding f_encode_rounds_Suc using Suc.IH [OF Suc.prems(2)] by simp
qed

lemma Feistel_decoder_int:
  "Feistel_decoder self (CInt x) =
     Inr (CInt (take_bit 32
       (interleave_bits (fst (f_decode_rounds self (f_rounds self) (unpack_bits x)))
                        (snd (f_decode_rounds self (f_rounds self) (unpack_bits x))))))"
  by (simp add: Feistel_decoder_def and_4294967295 split_beta Let_def)

lemma Feistel_obfuscate_int:
  assumes "0 \<le> v" "v < 2 ^ 32"
  shows "Feistel_obfuscate self (CInt v) =
     Inr (Call (Name (f_decoder_name self) Load)
       [Constant (CInt (take_bit 32
          (interleave_bits (fst (f_encode_rounds self (f_rounds self) (unpack_bits v)))
                           (snd (f_encode_rounds self (f_rounds self) (unpack_bits v))))))])"
  using assms by (simp add: Feistel_obfuscate_def and_4294967295 split_beta Let_def)

lemma Feistel_roundtrip:
  assumes "0 \<le> v" "v < 2 ^ 32"
  shows "\<exists>p. Feistel_obfuscate self (CInt v) =
               Inr (Call (Name (f_decoder_name self) Load) [Constant p])
           \<and> Feistel_decoder self p = Inr (CInt v)"
proof -
  let ?u = "unpack_bits v"
  let ?e = "f_encode_rounds self (f_rounds self) ?u"
  let ?enc = "take_bit 32 (interleave_bits (fst ?e) (snd ?e))"
  have u: "take_bit 16 (fst ?u) = fst ?u" "take_bit 16 (snd ?u) = snd ?u"
    using unpack_bits_u16 [of v] by simp_all
  have e16: "take_bit 16 (fst ?e) = fst ?e" "take_bit 16 (snd ?e) = snd ?e"
    using f_encode_rounds_u16 [of "fst ?u" "snd ?u" self "f_rounds self"] u by simp_all
  have "unpack_bits ?enc = ?e"
    unfolding take_bit_32_interleave unpack_interleave e16 by simp
  moreover have "f_decode_rounds self (f_rounds self) ?e = ?u"
    using f_rounds_inverse [of "fst ?u" "snd ?u" self "f_rounds self"] u by simp
  moreover have "take_bit 32 v = v"
    using assms by (simp add: take_bit_int_eq_self)
  ultimately have "Feistel_decoder self (CInt ?enc) = Inr (CInt v)"
    unfolding Feistel_decoder_int by (simp add: interleave_unpack)
  then show ?thesis
    unfolding Feistel_obfuscate_int [OF assms] by blast
qed

subsection \<open>XOR string\<close>

lemma xor_char_cancel: "xor_char (xor_char c k) k = c"
proof -
  let ?a = "of_char c :: nat" and ?b = "of_char k :: nat"
  have a: "take_bit 8 ?a = ?a" and b: "take_bit 8 ?b = ?b"
    by (simp_all add: take_bit_eq_mod)
  have "(?a XOR ?b) mod 256 = take_bit 8 (?a XOR ?b)"
    by (simp add: take_bit_eq_mod)
  also have "\<dots> = ?a XOR ?b"
    by (simp only: take_bit_xor a b)
  finally have "(of_char (xor_char c k) :: nat) = ?a XOR ?b"
    by (simp add: xor_char_def)
  then have "xor_char (xor_char c k) k = char_of ((?a XOR ?b) XOR ?b)"
    by (simp add: xor_char_def)
  also have "(?a XOR ?b) XOR ?b = ?a"
    by (simp add: xor.assoc)
  finally show ?thesis by simp
qed

lemma XorString_decoder_payload:
  "XorString_decoder (CStr (map (\<lambda>i. xor_char (s ! i) (map key [0..<length s] ! i)) [0..<length s]
                            @ map key [0..<length s]))
   = (case py_int s of Inl e \<Rightarrow> Inl e | Inr v \<Rightarrow> Inr (CInt v))"
proof -
  let ?n = "length s"
  let ?ks = "map key [0..<?n]"
  let ?xs = "map (\<lambda>i. xor_char (s ! i) (?ks ! i)) [0..<?n]"
  have "map (\<lambda>i. xor_char (?xs ! i) (?ks ! i)) [0..<?n] = map (\<lambda>i. s ! i) [0..<?n]"
    by (rule map_cong) (simp_all add: xor_char_cancel)
  also have "\<dots> = s" by (rule map_nth)
  finally have "map (\<lambda>i. xor_char (?xs ! i) (?ks ! i)) [0..<?n] = s" .
  then show ?thesis
    by (simp add: XorString_decoder_def Let_def)
qed

lemma digit_not_space: "is_digit c \<Longrightarrow> \<not> is_space c"
  by (auto simp: is_digit_def is_space_def Let_def)

lemma digit_not_sign: "is_digit c \<Longrightarrow> c \<noteq> CHR ''-'' \<and> c \<noteq> CHR ''+'' \<and> c \<noteq> CHR ''_''"
  by (auto simp: is_digit_def)

lemma minus_not_space: "\<not> is_space CHR ''-''"
  by (simp add: is_space_def)

lemma strip_id:
  assumes "s \<noteq> []" "\<not> is_space (hd s)" "\<not> is_space (last s)"
  shows "strip s = s"
proof -
  have a: "dropWhile is_space s = s"
    using assms(1,2) by (simp add: dropWhile_eq_self_iff)
  have "hd (rev s) = last s"
    by (simp add: hd_rev)
  then have "dropWhile is_space (rev s) = rev s"
    using assms(3) by (simp add: dropWhile_eq_self_iff)
  with a show ?thesis by (simp add: strip_def)
qed

lemma digit_groups_all_digits:
  "ds \<noteq> [] \<Longrightarrow> list_all is_digit ds \<Longrightarrow> digit_groups ds"
proof (induction ds rule: digit_groups.induct)
  case 1
  then show ?case by simp
next
  case (2 c)
  then show ?case by simp
next
  case (3 c d cs)
  then have "d \<noteq> CHR ''_''" using digit_not_sign [of d] by simp
  with 3 show ?case by simp
qed

lemma filter_underscore_digits:
  "list_all is_digit ds \<Longrightarrow> filter (\<lambda>c. c \<noteq> CHR ''_'') ds = ds"
  by (induction ds) (auto dest: digit_not_sign)

lemma py_int_digits:
  assumes "ds \<noteq> []" "list_all is_digit ds" "length ds \<le> max_str_digits"
  shows "py_int ds = Inr (int (digits_val ds))"
    and "py_int (CHR ''-'' # ds) = Inr (- int (digits_val ds))"
proof -
  have h: "is_digit (hd ds)" and l: "is_digit (last ds)"
    using assms(1,2) by (auto simp: list_all_iff)
  have s1: "strip ds = ds"
    using assms(1) h l by (intro strip_id) (auto dest: digit_not_space)
  have s2: "strip (CHR ''-'' # ds) = CHR ''-'' # ds"
    using assms(1) l by (intro strip_id) (auto dest: digit_not_space simp: minus_not_space)
  have hd: "hd ds \<noteq> CHR ''-''" "hd ds \<noteq> CHR ''+''"
    using digit_not_sign [OF h] by simp_all
  show "py_int ds = Inr (int (digits_val ds))"
    using assms hd
    by (simp add: py_int_def s1 Let_def digit_groups_all_digits filter_underscore_digits)
  show "py_int (CHR ''-'' # ds) = Inr (- int (digits_val ds))"
    using assms
    by (simp add: py_int_def s2 Let_def digit_groups_all_digits filter_underscore_digits)
qed

lemma py_int_str_int:
  assumes "str_int v = Inr s"
  shows "py_int s = Inr v"
proof -
  let ?ds = "str_nat (nat \<bar>v\<bar>)"
  have len: "length ?ds \<le> max_str_digits"
    using assms by (simp add: str_int_def decimal_digits_def split: if_splits)
  have s: "s = (if v < 0 then CHR ''-'' # ?ds else ?ds)"
    using assms by (simp add: str_int_def split: if_splits)
  note d = py_int_digits [OF str_nat_nonempty str_nat_all_digits len]
  show ?thesis
  proof (cases "v < 0")
    case True
    with s d(2) show ?thesis by (simp add: digits_val_str_nat)
  next
    case False
    with s d(1) show ?thesis by (simp add: digits_val_str_nat)
  qed
qed

lemma str_int_within_limit:
  "decimal_digits v \<le> max_str_digits \<Longrightarrow>
     str_int v = Inr (if v < 0 then CHR ''-'' # str_nat (nat \<bar>v\<bar>) else str_nat (nat \<bar>v\<bar>))"
  by (simp add: str_int_def)

lemma XorString_roundtrip:
  assumes "decimal_digits v \<le> max_str_digits"
  shows "\<exists>p. XorString_obfuscate dn key (CInt v) = Inr (Call (Name dn Load) [Constant (CStr p)])
           \<and> XorString_decoder (CStr p) = Inr (CInt v)"
proof -
  obtain s where s: "str_int v = Inr s"
    using str_int_within_limit [OF assms] by blast
  have "py_int s = Inr v" using s by (rule py_int_str_int)
  then show ?thesis
    using s by (simp add: XorString_obfuscate_def Let_def XorString_decoder_payload)
qed

lemma py_int_True_False:
  "py_int ''True'' = Inl ValueError" "py_int ''False'' = Inl ValueError"
  by (simp_all add: py_int_def strip_def is_space_def is_digit_def Let_def)

lemma XorString_bool:
  "\<exists>e. visit_Constant (XorString_obfuscate dn key) (CBool b) = Inr e
      \<and> eval_replacement dn XorString_decoder e = Inl ValueError"
proof -
  let ?s = "if b then ''True'' else ''False''"
  let ?p = "map (\<lambda>i. xor_char (?s ! i) (map key [0..<length ?s] ! i)) [0..<length ?s]
              @ map key [0..<length ?s]"
  have obf: "visit_Constant (XorString_obfuscate dn key) (CBool b) =
      Inr (Call (Name dn Load) [Constant (CStr ?p)])"
    by (simp only: visit_Constant_def XorString_obfuscate_def isinstance_int.simps py_str.simps
        if_True sum.case Let_def)
  have "py_int ?s = Inl ValueError"
    by (cases b) (simp_all add: py_int_True_False)
  then have "XorString_decoder (CStr ?p) = Inl ValueError"
    by (simp only: XorString_decoder_payload sum.case)
  then show ?thesis
    unfolding obf by simp
qed

subsection \<open>Claims about the number schemes\<close>

definition f0 :: feistel where
  "f0 = \<lparr>f_rounds = 3, f_salt_mul = 40503, f_salt_xor = 777, f_decoder_name = ''decode_num0''\<rparr>"

definition key_a :: "nat \<Rightarrow> char" where
  "key_a i = CHR ''a''"

lemma SimpleFeistel_example_42:
  "SimpleFeistel_obfuscate sf0 (CInt 42) =
     Inr (Call (Name ''decode_num0'' Load) [Constant (CInt 1904817165)])"
  by code_simp

lemma SimpleFeistel_example_decode_42:
  "SimpleFeistel_decoder sf0 (CInt 1904817165) = Inr (CInt 42)"
  by code_simp

lemma length_str_nat_le:
  "n < 10 ^ Suc k \<Longrightarrow> length (str_nat n) \<le> Suc k"
proof (induction k arbitrary: n)
  case 0
  then show ?case by (subst str_nat.simps) simp
next
  case (Suc k)
  show ?case
  proof (cases "n < 10")
    case True
    then show ?thesis by (subst str_nat.simps) simp
  next
    case False
    have "n div 10 < 10 ^ Suc k"
      using Suc.prems by (simp add: less_mult_imp_div_less)
    then have "length (str_nat (n div 10)) \<le> Suc k" by (rule Suc.IH)
    with False show ?thesis by (subst str_nat.simps) simp
  qed
qed

lemma decimal_digits_le:
  "\<bar>v\<bar> < 10 ^ Suc k \<Longrightarrow> decimal_digits v \<le> Suc k"
proof -
  assume "\<bar>v\<bar> < 10 ^ Suc k"
  then have "nat \<bar>v\<bar> < 10 ^ Suc k"
    by (metis nat_less_iff abs_ge_zero of_nat_numeral of_nat_power)
  then show ?thesis
    unfolding decimal_digits_def by (rule length_str_nat_le)
qed

lemma decimal_digits_small:
  "\<bar>v\<bar> < 10 ^ 10 \<Longrightarrow> decimal_digits v \<le> max_str_digits"
  using decimal_digits_le [of v 9] by (simp add: max_str_digits_def)

lemma decimal_digits_examples:
  "decimal_digits 0 \<le> max_str_digits" "decimal_digits 42 \<le> max_str_digits"
  "decimal_digits 4294967295 \<le> max_str_digits" "decimal_digits 4294967296 \<le> max_str_digits"
  "decimal_digits (- 1) \<le> max_str_digits"
  by (simp_all add: decimal_digits_small)

text \<open>
  C2. For each scheme, \<open>obfuscate(v)\<close> returns a call of the scheme's decoder on one
  encoded payload, and the decoder applied to that payload returns \<open>v\<close>: for the two
  Feistel schemes (any key, salts and round count) on \<open>0 \<le> v < 2^32\<close>, for the XOR
  string scheme (any random key characters) on every integer that \<open>str\<close> converts, that
  is of at most 4300 decimal digits.
\<close>

theorem number_schemes_round_trip:
  "(0 \<le> v \<and> v < 2 ^ 32 \<longrightarrow>
      (\<exists>p. SimpleFeistel_obfuscate sf (CInt v) =
              Inr (Call (Name (sf_decoder_name sf) Load) [Constant p])
          \<and> SimpleFeistel_decoder sf p = Inr (CInt v))
    \<and> (\<exists>p. Feistel_obfuscate fs (CInt v) =
              Inr (Call (Name (f_decoder_name fs) Load) [Constant p])
          \<and> Feistel_decoder fs p = Inr (CInt v)))
   \<and> (decimal_digits v \<le> max_str_digits \<longrightarrow>
      (\<exists>p. XorString_obfuscate dn key (CInt v) = Inr (Call (Name dn Load) [Constant (CStr p)])
          \<and> XorString_decoder (CStr p) = Inr (CInt v)))"
  using SimpleFeistel_roundtrip [of v sf] Feistel_roundtrip [of v fs] XorString_roundtrip [of v dn key]
  by blast

theorem number_schemes_round_trip_witness:
  "(\<exists>p. SimpleFeistel_obfuscate sf0 (CInt 4294967295) =
          Inr (Call (Name (sf_decoder_name sf0) Load) [Constant p])
        \<and> SimpleFeistel_decoder sf0 p = Inr (CInt 4294967295))
   \<and> (\<exists>p. Feistel_obfuscate f0 (CInt 4294967295) =
          Inr (Call (Name (f_decoder_name f0) Load) [Constant p])
        \<and> Feistel_decoder f0 p = Inr (CInt 4294967295))
   \<and> (\<exists>p. XorString_obfuscate ''decode_num0'' key_a (CInt 4294967295) =
          Inr (Call (Name ''decode_num0'' Load) [Constant (CStr p)])
        \<and> XorString_decoder (CStr p) = Inr (CInt 4294967295))"
  using number_schemes_round_trip [of 4294967295 sf0 f0 "''decode_num0''" key_a]
    decimal_digits_examples(3)
  by simp

lemma SimpleFeistel_out_of_range:
  "v < 0 \<or> 2 ^ 32 \<le> v \<Longrightarrow> SimpleFeistel_obfuscate sf (CInt v) = Inr (Constant (CInt v))"
  by (auto simp: SimpleFeistel_obfuscate_def)

lemma Feistel_out_of_range:
  "v < 0 \<or> 2 ^ 32 \<le> v \<Longrightarrow> Feistel_obfuscate fs (CInt v) = Inr (Constant (CInt v))"
  by (auto simp: Feistel_obfuscate_def)

text \<open>
  C4, as the code has it. Outside \<open>[0, 2^32)\<close> the identity scheme and the two Feistel
  schemes return the plain literal. \<open>XorStringNumberStrategy.obfuscate\<close> has no range
  test: for an integer of at most 4300 decimal digits, in that range or not, it returns a
  call of the decoder on a string payload, not the literal.
\<close>

theorem out_of_range_literals:
  "(v < 0 \<or> 2 ^ 32 \<le> v \<longrightarrow>
      Template_obfuscate (CInt v) = Inr (Constant (CInt v))
    \<and> SimpleFeistel_obfuscate sf (CInt v) = Inr (Constant (CInt v))
    \<and> Feistel_obfuscate fs (CInt v) = Inr (Constant (CInt v)))
   \<and> (decimal_digits v \<le> max_str_digits \<longrightarrow>
      (\<exists>payload. XorString_obfuscate dn key (CInt v) =
          Inr (Call (Name dn Load) [Constant (CStr payload)])))"
  using SimpleFeistel_out_of_range [of v sf] Feistel_out_of_range [of v fs]
    XorString_roundtrip [of v dn key]
  by (auto simp: Template_obfuscate_def)

theorem out_of_range_literals_witness:
  "Template_obfuscate (CInt (- 1)) = Inr (Constant (CInt (- 1)))
   \<and> SimpleFeistel_obfuscate sf0 (CInt (- 1)) = Inr (Constant (CInt (- 1)))
   \<and> Feistel_obfuscate f0 (CInt (- 1)) = Inr (Constant (CInt (- 1)))
   \<and> (\<exists>payload. XorString_obfuscate ''decode_num0'' key_a (CInt (- 1)) =
          Inr (Call (Name ''decode_num0'' Load) [Constant (CStr payload)]))"
  using out_of_range_literals [of "- 1" sf0 f0 "''decode_num0''" key_a]
    decimal_digits_examples(5)
  by simp

theorem xor_string_out_of_range_counterexample:
  "XorString_obfuscate ''decode_num0'' key_a (CInt (- 1)) \<noteq> Inr (Constant (CInt (- 1)))
   \<and> XorString_obfuscate ''decode_num0'' key_a (CInt 4294967296) \<noteq> Inr (Constant (CInt 4294967296))"
  by (simp add: XorString_obfuscate_def Let_def split: sum.splits)

lemma SimpleFeistel_obfuscate_bool:
  "SimpleFeistel_obfuscate sf (CBool b) = SimpleFeistel_obfuscate sf (CInt (if b then 1 else 0))"
  by (simp add: SimpleFeistel_obfuscate_def)

lemma Feistel_obfuscate_bool:
  "Feistel_obfuscate fs (CBool b) = Feistel_obfuscate fs (CInt (if b then 1 else 0))"
  by (simp add: Feistel_obfuscate_def)

text \<open>
  C10, evaluated on the code. \<open>visit_Constant\<close> hands a boolean constant to the scheme. The
  two Feistel schemes replace it by a decoder call that evaluates to the integer 1 or 0. The
  XOR string scheme encodes the text \<open>str(True)\<close>, that is \<open>True\<close>, and its decoder then
  calls \<open>int\<close> on that text: the decoder call raises \<open>ValueError\<close>, for every key.
\<close>

theorem bool_constant_obfuscation:
  "(\<exists>e. visit_Constant (SimpleFeistel_obfuscate sf) (CBool b) = Inr e
        \<and> eval_replacement (sf_decoder_name sf) (SimpleFeistel_decoder sf) e
              = Inr (CInt (if b then 1 else 0)))
   \<and> (\<exists>e. visit_Constant (Feistel_obfuscate fs) (CBool b) = Inr e
        \<and> eval_replacement (f_decoder_name fs) (Feistel_decoder fs) e
              = Inr (CInt (if b then 1 else 0)))
   \<and> (\<exists>e. visit_Constant (XorString_obfuscate dn key) (CBool b) = Inr e
        \<and> eval_replacement dn XorString_decoder e = Inl ValueError)"
proof -
  have r: "(0::int) \<le> (if b then 1 else 0)" "(if b then 1 else 0) < (2::int) ^ 32"
    by simp_all
  obtain p where p: "SimpleFeistel_obfuscate sf (CInt (if b then 1 else 0)) =
        Inr (Call (Name (sf_decoder_name sf) Load) [Constant p])"
      "SimpleFeistel_decoder sf p = Inr (CInt (if b then 1 else 0))"
    using SimpleFeistel_roundtrip [OF r, of sf] by blast
  obtain q where q: "Feistel_obfuscate fs (CInt (if b then 1 else 0)) =
        Inr (Call (Name (f_decoder_name fs) Load) [Constant q])"
      "Feistel_decoder fs q = Inr (CInt (if b then 1 else 0))"
    using Feistel_roundtrip [OF r, of fs] by blast
  have "\<exists>e. visit_Constant (SimpleFeistel_obfuscate sf) (CBool b) = Inr e
        \<and> eval_replacement (sf_decoder_name sf) (SimpleFeistel_decoder sf) e
              = Inr (CInt (if b then 1 else 0))"
    using p by (simp add: visit_Constant_def SimpleFeistel_obfuscate_bool)
  moreover have "\<exists>e. visit_Constant (Feistel_obfuscate fs) (CBool b) = Inr e
        \<and> eval_replacement (f_decoder_name fs) (Feistel_decoder fs) e
              = Inr (CInt (if b then 1 else 0))"
    using q by (simp add: visit_Constant_def Feistel_obfuscate_bool)
  ultimately show ?thesis
    using XorString_bool [of dn key b] by blast
qed

end
